theory Spec2Isabelle
  imports Complex_Main "HOL-Library.Multiset" "HOL-Library.List_Lexorder" "HOL-Library.Char_ord"
begin

section \<open>Timezone scorer (server/index.js, analyzeHourlyCounts)\<close>

text \<open>
  A histogram is a JavaScript array of counts. The counts are integers, and every sum of
  them stays an integer, so they are modelled as \<open>int\<close>. The only non-integer numbers the
  scorer computes are the initial \<open>-Infinity\<close> of \<open>bestScore\<close> and the quotient
  \<open>bestScore / total\<close>; \<open>num\<close> holds them, the quotient as an exact rational. The source
  rounds the quotient to the nearest double; rounding is monotone and keeps 0, 1/2 and 1,
  so for a total below \<open>2^53\<close> the comparisons made on the quotient agree with the exact ones.
\<close>

datatype num = NegInf | Fin rat | PosInf

text \<open>\<open>gt a b\<close> is the JavaScript comparison \<open>a > b\<close> on these numbers.\<close>

fun gt :: "num \<Rightarrow> num \<Rightarrow> bool" where
  "gt NegInf b = False"
| "gt (Fin a) NegInf = True"
| "gt (Fin a) (Fin b) = (b < a)"
| "gt (Fin a) PosInf = False"
| "gt PosInf PosInf = False"
| "gt PosInf b = True"

text \<open>\<open>divNum a t\<close> is \<open>a / t\<close> for an integer \<open>t\<close>; the scorer divides only when \<open>t\<close> is not zero.\<close>

fun divNum :: "num \<Rightarrow> int \<Rightarrow> num" where
  "divNum (Fin a) t = Fin (a / of_int t)"
| "divNum NegInf t = (if 0 < t then NegInf else PosInf)"
| "divNum PosInf t = (if 0 < t then PosInf else NegInf)"

text \<open>The remainder operator \<open>%\<close> of JavaScript truncates towards zero.\<close>

definition jsRem :: "int \<Rightarrow> int \<Rightarrow> int" where
  "jsRem a b = (if a < 0 then - ((- a) mod \<bar>b\<bar>) else a mod \<bar>b\<bar>)"

text \<open>\<open>String(n)\<close> for an integer \<open>n\<close>: its decimal digits, with a minus sign when negative.\<close>

fun digits :: "nat \<Rightarrow> string" where
  "digits n = (if n < 10 then [char_of (48 + n)]
               else digits (n div 10) @ [char_of (48 + n mod 10)])"

declare digits.simps [simp del]

definition String_int :: "int \<Rightarrow> string" where
  "String_int n = (if n < 0 then CHR ''-'' # digits (nat (- n)) else digits (nat n))"

definition tzExamples :: "(string \<times> string) list" where
  "tzExamples =
    [(''-12'', ''Etc/GMT+12''), (''-11'', ''Pacific/Pago_Pago''), (''-10'', ''Pacific/Honolulu''),
     (''-9'', ''America/Anchorage''), (''-8'', ''America/Los_Angeles''), (''-7'', ''America/Denver''),
     (''-6'', ''America/Chicago''), (''-5'', ''America/New_York''), (''-4'', ''America/Halifax''),
     (''-3'', ''America/Sao_Paulo''), (''-2'', ''Atlantic/South_Georgia''), (''-1'', ''Atlantic/Azores''),
     (''0'', ''Etc/UTC''), (''1'', ''Europe/Berlin''), (''2'', ''Europe/Kaliningrad''),
     (''3'', ''Europe/Moscow''), (''4'', ''Asia/Dubai''), (''5'', ''Asia/Karachi''),
     (''6'', ''Asia/Dhaka''), (''7'', ''Asia/Bangkok''), (''8'', ''Asia/Shanghai''),
     (''9'', ''Asia/Tokyo''), (''10'', ''Australia/Sydney''), (''11'', ''Pacific/Noumea''),
     (''12'', ''Pacific/Auckland''), (''13'', ''Pacific/Tongatapu''), (''14'', ''Pacific/Kiritimati'')]"

text \<open>\<open>tzExamples[String(offset)] || 'Etc/UTC'\<close>: every name of the table is a non-empty
  string, so the default is taken exactly when the key is absent.\<close>

definition exampleTz :: "int \<Rightarrow> string" where
  "exampleTz offset =
     (case map_of tzExamples (String_int offset) of
        Some tz \<Rightarrow> (if tz = [] then ''Etc/UTC'' else tz)
      | None \<Rightarrow> ''Etc/UTC'')"

record analysis =
  utc_offset_hours :: int
  utc_label :: string
  iana_tz_example :: string
  median :: int
  ratio :: num
  bars_high_over_mult :: nat
  passes_rule :: bool

text \<open>\<open>counts.reduce((a, b) => a + b, 0)\<close>\<close>

definition total_sum :: "int list \<Rightarrow> int" where
  "total_sum counts = foldl (\<lambda>a b. a + b) 0 counts"

text \<open>\<open>[...counts].sort((a, b) => a - b)\<close>, as a value: the ascending sort of the counts.\<close>

definition sorted_copy :: "int list \<Rightarrow> int list" where
  "sorted_copy counts = sort counts"

definition localHour :: "nat \<Rightarrow> int \<Rightarrow> int" where
  "localHour i offset = jsRem (int i + offset + 24) 24"

text \<open>The inner loop over \<open>i = 0 .. 23\<close>.\<close>

definition daySum :: "int list \<Rightarrow> int \<Rightarrow> int" where
  "daySum counts offset =
     foldl (\<lambda>s i. if 8 \<le> localHour i offset \<and> localHour i offset < 18 then s + counts ! i else s)
       0 [0..<24]"

text \<open>One round of the outer loop, on the pair \<open>(bestOffset, bestScore)\<close>.\<close>

fun scoreStep :: "int list \<Rightarrow> int \<times> num \<Rightarrow> int \<Rightarrow> int \<times> num" where
  "scoreStep counts (bestOffset, bestScore) offset =
     (if gt (Fin (of_int (daySum counts offset))) bestScore
      then (offset, Fin (of_int (daySum counts offset)))
      else (bestOffset, bestScore))"

text \<open>The outer loop: \<open>offset = -12 .. 14\<close>, from \<open>bestOffset = 0\<close>, \<open>bestScore = -Infinity\<close>.\<close>

definition bestFit :: "int list \<Rightarrow> int \<times> num" where
  "bestFit counts = foldl (scoreStep counts) (0, NegInf) [-12..14]"

text \<open>
  The scorer reads \<open>counts[0] .. counts[23]\<close>. On an array shorter than 24 a read yields
  \<open>undefined\<close> and the sums become \<open>NaN\<close>, which is outside this model: the result is
  \<open>None\<close> there.
\<close>

definition analyzeHourlyCounts :: "int list \<Rightarrow> analysis option" where
  "analyzeHourlyCounts counts =
     (if length counts < 24 then None
      else
        let total = total_sum counts;
            sorted = sorted_copy counts;
            median = sorted ! (length sorted div 2);
            (bestOffset, bestScore) = bestFit counts;
            utc_label = ''UTC'' @ (if 0 \<le> bestOffset then ''+'' else '''') @ String_int bestOffset;
            ratio = (if total \<noteq> 0 then divNum bestScore total else Fin 0);
            highBars = length (filter (\<lambda>c. median * 3 \<le> c) counts);
            passes_rule = (gt ratio (Fin (1 / 2)) \<and> 3 \<le> highBars)
        in Some \<lparr> utc_offset_hours = bestOffset,
                  utc_label = utc_label,
                  iana_tz_example = exampleTz bestOffset,
                  median = median,
                  ratio = ratio,
                  bars_high_over_mult = highBars,
                  passes_rule = passes_rule \<rparr>)"

text \<open>
  The spec's words for the score of one offset: the sum of \<open>counts[i]\<close> over the hours
  \<open>i\<close> with \<open>(i + offset) mod 24\<close> in \<open>[8, 18)\<close>.
\<close>

definition daytimeSum_spec :: "int list \<Rightarrow> int \<Rightarrow> int" where
  "daytimeSum_spec counts offset =
     sum_list (map (\<lambda>i. counts ! i) (filter (\<lambda>i. (int i + offset) mod 24 \<in> {8..<18}) [0..<24]))"

subsection \<open>The sorted copy on a heap of arrays\<close>

text \<open>
  Whether \<open>[...counts].sort(...)\<close> changes the caller's array is a question about
  references, so here arrays live in a heap: a reference is an index into the list of all
  arrays. The spread allocates a new array with the elements of the old one; \<open>sort\<close> sorts
  the array it is called on in place and returns the same reference.
\<close>

type_synonym heap = "int list list"

definition spread :: "heap \<Rightarrow> nat \<Rightarrow> (nat \<times> heap) option" where
  "spread h r = (if r < length h then Some (length h, h @ [h ! r]) else None)"

definition sort_in_place :: "heap \<Rightarrow> nat \<Rightarrow> (nat \<times> heap) option" where
  "sort_in_place h p = (if p < length h then Some (p, h[p := sort (h ! p)]) else None)"

definition sorted_copy_heap :: "heap \<Rightarrow> nat \<Rightarrow> (nat \<times> heap) option" where
  "sorted_copy_heap h r =
     (case spread h r of None \<Rightarrow> None | Some (p, h1) \<Rightarrow> sort_in_place h1 p)"

section \<open>Histogram accumulator (accumulateHoursFromActivity)\<close>

text \<open>
  Addresses and keys are ASCII strings; \<open>toLowerCase\<close> maps \<open>A .. Z\<close> to \<open>a .. z\<close>.
\<close>

definition lowerChar :: "char \<Rightarrow> char" where
  "lowerChar c = (if CHR ''A'' \<le> c \<and> c \<le> CHR ''Z'' then char_of (of_char c + (32::nat)) else c)"

definition toLowerCase :: "string \<Rightarrow> string" where
  "toLowerCase s = map lowerChar s"

text \<open>
  The \<open>wallet_address\<close> of an event as the code tests it: a string (falsy when empty), a
  falsy value that is not a string (\<open>undefined\<close> when the field is absent, \<open>null\<close>, \<open>0\<close>),
  or a truthy value that is not a string, on which \<open>.toLowerCase()\<close> throws.
\<close>

datatype jsval = Str string | Falsy | Truthy

record 'b event =
  block_time :: 'b
  wallet_address :: jsval

datatype jserror = TypeError

text \<open>\<open>new Date(ts).getUTCHours()\<close> for a time value \<open>ts\<close> in milliseconds.\<close>

definition getUTCHours :: "int \<Rightarrow> nat" where
  "getUTCHours ts = nat ((ts div 3600000) mod 24)"

text \<open>
  \<open>counts24[hourUtc] = (counts24[hourUtc] || 0) + 1\<close>. On an index past the end JavaScript
  extends the array and leaves holes, which an \<open>int list\<close> does not represent: the result
  is \<open>None\<close> there.
\<close>

definition bump :: "int list \<Rightarrow> nat \<Rightarrow> int list option" where
  "bump counts24 hourUtc =
     (if hourUtc < length counts24
      then Some (counts24[hourUtc := (if counts24 ! hourUtc = 0 then 0 else counts24 ! hourUtc) + 1])
      else None)"

text \<open>
  The body of the \<open>try\<close> for one element of the activity list. \<open>parse\<close> is \<open>Date.parse\<close>:
  \<open>None\<close> is \<open>NaN\<close>, \<open>Some ts\<close> a time value. An element \<open>None\<close> is \<open>null\<close> or
  \<open>undefined\<close>, whose property read throws. \<open>Inr None\<close> is \<open>continue\<close>; \<open>Inr (Some h)\<close>
  reaches the assignment to bucket \<open>h\<close>.
\<close>

definition tryBody ::
  "('b \<Rightarrow> int option) \<Rightarrow> string option \<Rightarrow> 'b event option \<Rightarrow> jserror + nat option" where
  "tryBody parse filterAddrLower e =
     (case e of
        None \<Rightarrow> Inl TypeError
      | Some ev \<Rightarrow>
         (case parse (block_time ev) of
            None \<Rightarrow> Inr None
          | Some ts \<Rightarrow>
             (if filterAddrLower \<noteq> None \<and> filterAddrLower \<noteq> Some [] then
                (case wallet_address ev of
                   Falsy \<Rightarrow> Inr (Some (getUTCHours ts))
                 | Str w \<Rightarrow>
                    (if w \<noteq> [] \<and> Some (toLowerCase w) \<noteq> filterAddrLower then Inr None
                     else Inr (Some (getUTCHours ts)))
                 | Truthy \<Rightarrow> Inl TypeError)
              else Inr (Some (getUTCHours ts)))))"

text \<open>One round of the loop: the \<open>catch {}\<close> drops the error and leaves the array as it is.\<close>

definition accumulateStep ::
  "('b \<Rightarrow> int option) \<Rightarrow> string option \<Rightarrow> int list option \<Rightarrow> 'b event option \<Rightarrow> int list option" where
  "accumulateStep parse filterAddrLower acc e =
     (case acc of
        None \<Rightarrow> None
      | Some counts24 \<Rightarrow>
         (case tryBody parse filterAddrLower e of
            Inl err \<Rightarrow> Some counts24
          | Inr None \<Rightarrow> Some counts24
          | Inr (Some hourUtc) \<Rightarrow> bump counts24 hourUtc))"

text \<open>\<open>activity || []\<close>: an absent activity list is the empty list.\<close>

definition accumulateHoursFromActivity ::
  "('b \<Rightarrow> int option) \<Rightarrow> int list \<Rightarrow> 'b event option list option \<Rightarrow> string option
     \<Rightarrow> int list option" where
  "accumulateHoursFromActivity parse counts24 activity filterAddrLower =
     foldl (accumulateStep parse filterAddrLower) (Some counts24)
       (case activity of None \<Rightarrow> [] | Some evs \<Rightarrow> evs)"

text \<open>
  The spec's words for the accumulator, with the filter as the code applies it: an event
  is counted at its UTC hour unless it is discarded.
\<close>

definition discarded :: "('b \<Rightarrow> int option) \<Rightarrow> string option \<Rightarrow> 'b event option \<Rightarrow> bool" where
  "discarded parse filterAddrLower e =
     (case e of
        None \<Rightarrow> True
      | Some ev \<Rightarrow>
          parse (block_time ev) = None
          \<or> (filterAddrLower \<noteq> None \<and> filterAddrLower \<noteq> Some []
              \<and> (case wallet_address ev of
                    Falsy \<Rightarrow> False
                  | Str w \<Rightarrow> w \<noteq> [] \<and> Some (toLowerCase w) \<noteq> filterAddrLower
                  | Truthy \<Rightarrow> True)))"

definition utcHour :: "('b \<Rightarrow> int option) \<Rightarrow> 'b event option \<Rightarrow> nat" where
  "utcHour parse e =
     (case e of
        None \<Rightarrow> 0
      | Some ev \<Rightarrow> (case parse (block_time ev) of None \<Rightarrow> 0 | Some ts \<Rightarrow> getUTCHours ts))"

definition counted :: "('b \<Rightarrow> int option) \<Rightarrow> string option \<Rightarrow> nat \<Rightarrow> 'b event option list \<Rightarrow> nat" where
  "counted parse filterAddrLower h evs =
     length (filter (\<lambda>e. \<not> discarded parse filterAddrLower e \<and> utcHour parse e = h) evs)"

section \<open>One address across the chains (fetchAddressHistogramSIM)\<close>

text \<open>
  Each chain request either fails (\<open>axios.get\<close> throws or times out; the \<open>catch\<close> ignores
  it) or answers with \<open>r.data?.activity\<close>. A reply is handled in one synchronous block, so
  the histogram is the fold of the replies in their order of arrival, from
  \<open>new Array(24).fill(0)\<close>.
\<close>

datatype 'b reply = Failed | Reply "'b event option list option"

definition fetchStep ::
  "('b \<Rightarrow> int option) \<Rightarrow> string \<Rightarrow> int list option \<Rightarrow> 'b reply \<Rightarrow> int list option" where
  "fetchStep parse addrLower acc rep =
     (case acc of
        None \<Rightarrow> None
      | Some counts \<Rightarrow>
         (case rep of
            Failed \<Rightarrow> Some counts
          | Reply activity \<Rightarrow> accumulateHoursFromActivity parse counts activity (Some addrLower)))"

definition fetchAddressHistogramSIM ::
  "('b \<Rightarrow> int option) \<Rightarrow> string \<Rightarrow> 'b reply list \<Rightarrow> int list option" where
  "fetchAddressHistogramSIM parse address replies =
     foldl (fetchStep parse (toLowerCase address)) (Some (replicate 24 0)) replies"

section \<open>The request handler (POST /api/timezone)\<close>

fun join :: "string \<Rightarrow> string list \<Rightarrow> string" where
  "join sep [] = []"
| "join sep [x] = x"
| "join sep (x # y # ys) = x @ sep @ join sep (y # ys)"

text \<open>
  \<open>addresses.map((a) => String(a).toLowerCase()).sort().join(',')\<close>. The default sort of
  JavaScript orders strings by their code units, which on ASCII strings is the
  lexicographic order of the characters.
\<close>

definition cacheKey :: "string list \<Rightarrow> string" where
  "cacheKey addresses = join '','' (sort (map toLowerCase addresses))"

subsection \<open>The address worker pool\<close>

text \<open>
  Each worker runs \<open>while (queue.length) { address = queue.pop(); counts = await
  fetch...; results.push(...) }\<close>. JavaScript runs one worker at a time and switches only
  at the \<open>await\<close>, so a worker is at the head of its loop, suspended at the \<open>await\<close> with
  the address it popped, or finished. \<open>calls\<close> records the addresses handed to
  \<open>fetchAddressHistogramSIM\<close>, in order.
\<close>

datatype wstate = AtLoopHead | Awaiting string | Finished

record pool =
  queue :: "string list"
  results :: "(string \<times> analysis) list"
  workers :: "wstate list"
  calls :: "string list"

inductive step :: "('b \<Rightarrow> int option) \<Rightarrow> pool \<Rightarrow> pool \<Rightarrow> bool" for parse :: "'b \<Rightarrow> int option" where
  pop: "i < length (workers s) \<Longrightarrow> workers s ! i = AtLoopHead \<Longrightarrow> queue s \<noteq> [] \<Longrightarrow>
        step parse s (s\<lparr> queue := butlast (queue s),
                           workers := (workers s)[i := Awaiting (last (queue s))],
                           calls := calls s @ [last (queue s)] \<rparr>)"
| leave: "i < length (workers s) \<Longrightarrow> workers s ! i = AtLoopHead \<Longrightarrow> queue s = [] \<Longrightarrow>
        step parse s (s\<lparr> workers := (workers s)[i := Finished] \<rparr>)"
| resume: "i < length (workers s) \<Longrightarrow> workers s ! i = Awaiting address \<Longrightarrow>
        fetchAddressHistogramSIM parse address replies = Some counts \<Longrightarrow>
        analyzeHourlyCounts counts = Some r \<Longrightarrow>
        step parse s (s\<lparr> results := results s @ [(address, r)],
                           workers := (workers s)[i := AtLoopHead] \<rparr>)"

text \<open>
  \<open>Math.min(WORKERS, Math.max(1, Math.ceil(addresses.length / 2)))\<close>, as the length of
  the array of workers: a length below zero gives no worker.
\<close>

definition workerCount :: "int \<Rightarrow> nat \<Rightarrow> nat" where
  "workerCount WORKERS n = nat (min WORKERS (max 1 (int ((n + 1) div 2))))"

definition initPool :: "int \<Rightarrow> string list \<Rightarrow> pool" where
  "initPool WORKERS addresses =
     \<lparr> queue = addresses, results = [],
       workers = replicate (workerCount WORKERS (length addresses)) AtLoopHead,
       calls = [] \<rparr>"

text \<open>\<open>Promise.all\<close> resolves when every worker has returned.\<close>

definition finished :: "pool \<Rightarrow> bool" where
  "finished s = list_all (\<lambda>w. w = Finished) (workers s)"

subsection \<open>The handler\<close>

text \<open>
  \<open>NoList\<close> is a body without \<open>addresses\<close>, or with one that is not an array. The cache
  is a map from keys to result lists (an expired entry is an absent one). The handler
  returns the response, the cache after the request, and the reads and writes of the
  cache and the fetches started, in order. Its last argument is the state of the pool when
  \<open>Promise.all\<close> resolves; only a cache miss looks at it. Nothing in this model throws, so
  the \<open>catch\<close> that answers 500 is never entered.
\<close>

datatype body = NoList | Addresses "string list"

datatype response =
  Json400 string | Json200 "(string \<times> analysis) list" | Json500 string

datatype effect =
  CacheGet string | ProviderFetch string | CacheSet string "(string \<times> analysis) list"

type_synonym cache = "string \<rightharpoonup> (string \<times> analysis) list"

definition handler :: "cache \<Rightarrow> body \<Rightarrow> pool \<Rightarrow> response \<times> cache \<times> effect list" where
  "handler cache b s =
     (case b of
        NoList \<Rightarrow> (Json400 ''addresses array required'', cache, [])
      | Addresses addresses \<Rightarrow>
          if length addresses = 0 then (Json400 ''addresses array required'', cache, [])
          else
            (case cache (cacheKey addresses) of
               Some cached \<Rightarrow> (Json200 cached, cache, [CacheGet (cacheKey addresses)])
             | None \<Rightarrow>
                 (Json200 (results s), cache(cacheKey addresses \<mapsto> results s),
                  CacheGet (cacheKey addresses) # map ProviderFetch (calls s)
                    @ [CacheSet (cacheKey addresses) (results s)])))"

section \<open>Example histograms\<close>

definition busy_9_17 :: "int list" where
  "busy_9_17 = [0, 0, 0, 0, 0, 0, 0, 0, 0, 10, 10, 10, 10, 10, 10, 10, 10, 10, 0, 0, 0, 0, 0, 0]"

definition halves :: "int list" where
  "halves = [10, 0, 10, 0, 10, 0, 10, 0, 10, 0, 10, 0, 10, 0, 10, 0, 10, 0, 10, 0, 10, 0, 10, 0]"

text \<open>An activity event without a \<open>wallet_address\<close>, at 05:00 UTC, and a \<open>Date.parse\<close> that
  knows its timestamp.\<close>

definition parse_example :: "string \<Rightarrow> int option" where
  "parse_example t = (if t = ''2024-01-01T05:00:00Z'' then Some 1704085200000 else None)"

definition event_no_address :: "string event" where
  "event_no_address = \<lparr> block_time = ''2024-01-01T05:00:00Z'', wallet_address = Falsy \<rparr>"

text \<open>The same event carrying the address of the filter in upper case, and carrying another
  address.\<close>

definition event_same_address :: "string event" where
  "event_same_address = \<lparr> block_time = ''2024-01-01T05:00:00Z'', wallet_address = Str ''0xABC'' \<rparr>"

definition event_other_address :: "string event" where
  "event_other_address = \<lparr> block_time = ''2024-01-01T05:00:00Z'', wallet_address = Str ''0xDEF'' \<rparr>"

section \<open>Bookkeeping for the worker pool\<close>

text \<open>The addresses that suspended workers hold, and a measure that every step of the pool
  decreases.\<close>

fun held :: "wstate \<Rightarrow> string multiset" where
  "held (Awaiting address) = {#address#}"
| "held AtLoopHead = {#}"
| "held Finished = {#}"

definition inflight :: "wstate list \<Rightarrow> string multiset" where
  "inflight ws = sum_list (map held ws)"

fun weight :: "wstate \<Rightarrow> nat" where
  "weight (Awaiting address) = 2"
| "weight AtLoopHead = 1"
| "weight Finished = 0"

definition pool_measure :: "pool \<Rightarrow> nat" where
  "pool_measure s = 3 * length (queue s) + sum_list (map weight (workers s))"

text \<open>What holds of every state of a pool started on \<open>addresses\<close> with \<open>n\<close> workers.\<close>

definition pool_inv :: "string list \<Rightarrow> nat \<Rightarrow> pool \<Rightarrow> bool" where
  "pool_inv addresses n s =
     (mset (queue s) + inflight (workers s) + mset (map fst (results s)) = mset addresses
      \<and> mset (calls s) = inflight (workers s) + mset (map fst (results s))
      \<and> length (workers s) = n
      \<and> (Finished \<in> set (workers s) \<longrightarrow> queue s = []))"

text \<open>The result for the all-zero histogram, and the run of the pool on a request that names
  one address twice.\<close>

definition zero_result :: analysis where
  "zero_result = \<lparr> utc_offset_hours = - 12, utc_label = ''UTC-12'',
                    iana_tz_example = ''Etc/GMT+12'', median = 0, ratio = Fin 0,
                    bars_high_over_mult = 24, passes_rule = False \<rparr>"

definition run_duplicate :: pool where
  "run_duplicate = \<lparr> queue = [], results = [(''0xabc'', zero_result), (''0xabc'', zero_result)],
                      workers = [Finished], calls = [''0xabc'', ''0xabc''] \<rparr>"

section \<open>Properties of the scorer\<close>


lemma jsRem_nonneg: "0 \<le> a \<Longrightarrow> jsRem a 24 = a mod 24"
  by (simp add: jsRem_def)

lemma localHour_mod: "- 24 \<le> offset \<Longrightarrow> localHour i offset = (int i + offset) mod 24"
  by (simp add: localHour_def jsRem_nonneg)

lemma foldl_cond_sum:
  "foldl (\<lambda>s i. if P i then s + f i else s) a xs = a + sum_list (map f (filter P xs))"
  for a :: int
  by (induction xs arbitrary: a) simp_all

lemma daySum_spec: "- 24 \<le> offset \<Longrightarrow> daySum counts offset = daytimeSum_spec counts offset"
  unfolding daySum_def daytimeSum_spec_def
  by (simp only: foldl_cond_sum localHour_mod) (simp only: atLeastLessThan_iff add_0)

lemma total_sum_sum_list: "total_sum counts = sum_list counts"
proof -
  have "foldl (\<lambda>a b. a + b) a counts = a + sum_list counts" for a :: int
    by (induction counts arbitrary: a) simp_all
  then show ?thesis by (simp add: total_sum_def)
qed

lemma scoreLoop_first_max:
  "os \<noteq> [] \<Longrightarrow>
   \<exists>pre b post. os = pre @ b # post
     \<and> foldl (scoreStep counts) (b0, NegInf) os = (b, Fin (of_int (daySum counts b)))
     \<and> (\<forall>x\<in>set pre. daySum counts x < daySum counts b)
     \<and> (\<forall>x\<in>set post. daySum counts x \<le> daySum counts b)"
proof (induction os rule: rev_nonempty_induct)
  case (single x)
  have "[x] = [] @ x # []" by simp
  moreover have "foldl (scoreStep counts) (b0, NegInf) [x] = (x, Fin (of_int (daySum counts x)))"
    by simp
  ultimately show ?case by fastforce
next
  case (snoc x xs)
  then obtain pre b post where xs: "xs = pre @ b # post"
    and res: "foldl (scoreStep counts) (b0, NegInf) xs = (b, Fin (of_int (daySum counts b)))"
    and pre: "\<forall>y\<in>set pre. daySum counts y < daySum counts b"
    and post: "\<forall>y\<in>set post. daySum counts y \<le> daySum counts b"
    by blast
  show ?case
  proof (cases "daySum counts b < daySum counts x")
    case True
    have "foldl (scoreStep counts) (b0, NegInf) (xs @ [x]) = (x, Fin (of_int (daySum counts x)))"
      using res True by simp
    moreover have "\<forall>y\<in>set xs. daySum counts y < daySum counts x"
      using xs pre post True by fastforce
    moreover have "xs @ [x] = xs @ x # []" by simp
    ultimately show ?thesis by fastforce
  next
    case False
    have "foldl (scoreStep counts) (b0, NegInf) (xs @ [x]) = (b, Fin (of_int (daySum counts b)))"
      using res False by simp
    moreover have "\<forall>y\<in>set (post @ [x]). daySum counts y \<le> daySum counts b"
      using post False by auto
    moreover have "xs @ [x] = pre @ b # (post @ [x])" using xs by simp
    ultimately show ?thesis using pre by blast
  qed
qed

lemma offsets_nonempty: "[- 12..14] \<noteq> ([]::int list)"
  by (simp add: upto_Nil)

lemma scoreLoop_sorted:
  assumes "os \<noteq> []" and srt: "sorted os"
  shows "\<exists>b. foldl (scoreStep counts) (b0, NegInf) os = (b, Fin (of_int (daySum counts b)))
     \<and> b \<in> set os
     \<and> (\<forall>x\<in>set os. daySum counts x \<le> daySum counts b)
     \<and> (\<forall>x\<in>set os. x < b \<longrightarrow> daySum counts x < daySum counts b)"
proof -
  obtain pre b post where os: "os = pre @ b # post"
    and res: "foldl (scoreStep counts) (b0, NegInf) os = (b, Fin (of_int (daySum counts b)))"
    and pre: "\<forall>x\<in>set pre. daySum counts x < daySum counts b"
    and post: "\<forall>x\<in>set post. daySum counts x \<le> daySum counts b"
    using scoreLoop_first_max [OF assms(1), of counts b0] by blast
  have mem: "set os = set pre \<union> {b} \<union> set post"
    using os by auto
  have after: "\<forall>x\<in>set post. b \<le> x"
    using srt os by (simp add: sorted_append)
  have before: "x \<in> set pre" if "x \<in> set os" "x < b" for x
    using that mem after by fastforce
  have "b \<in> set os" using mem by blast
  moreover have "\<forall>x\<in>set os. daySum counts x \<le> daySum counts b"
    using mem pre post by fastforce
  moreover have "\<forall>x\<in>set os. x < b \<longrightarrow> daySum counts x < daySum counts b"
    using before pre by blast
  ultimately show ?thesis using res by blast
qed

lemma bestFit_first_max:
  "\<exists>b. bestFit counts = (b, Fin (of_int (daySum counts b)))
     \<and> b \<in> {- 12..14}
     \<and> (\<forall>x\<in>{- 12..14}. daySum counts x \<le> daySum counts b)
     \<and> (\<forall>x\<in>{- 12..14}. x < b \<longrightarrow> daySum counts x < daySum counts b)"
  using scoreLoop_sorted [OF offsets_nonempty sorted_upto, of counts 0]
  unfolding bestFit_def set_upto .

text \<open>The record the scorer returns, field by field, once the best offset is known.\<close>

lemma analyze_fields:
  assumes len: "24 \<le> length counts"
    and bf: "bestFit counts = (b, Fin (of_int (daySum counts b)))"
  shows "\<exists>r. analyzeHourlyCounts counts = Some r
     \<and> utc_offset_hours r = b
     \<and> iana_tz_example r = exampleTz b
     \<and> median r = sort counts ! (length counts div 2)
     \<and> ratio r = (if total_sum counts \<noteq> 0
                   then Fin (of_int (daySum counts b) / of_int (total_sum counts)) else Fin 0)
     \<and> bars_high_over_mult r = length (filter (\<lambda>c. median r * 3 \<le> c) counts)
     \<and> passes_rule r = (gt (ratio r) (Fin (1 / 2)) \<and> 3 \<le> bars_high_over_mult r)"
  using len bf by (simp add: analyzeHourlyCounts_def sorted_copy_def Let_def)


lemma fetch_all_failed:
  "fetchAddressHistogramSIM parse address (replicate n Failed) = Some (replicate 24 0)"
proof -
  have "foldl (fetchStep parse a) (Some cs) (replicate n Failed) = Some cs" for a cs
    by (induction n) (simp_all add: fetchStep_def)
  then show ?thesis by (simp add: fetchAddressHistogramSIM_def)
qed

text \<open>
  Claim C1 as stated does not hold of the code: on the all-zero histogram the offset is
  not 0 and the zone is not \<open>Etc/UTC\<close>.
\<close>

theorem all_zero_histogram_counterexample:
  "map_option utc_offset_hours (analyzeHourlyCounts (replicate 24 0)) \<noteq> Some 0
   \<and> map_option iana_tz_example (analyzeHourlyCounts (replicate 24 0)) \<noteq> Some ''Etc/UTC''"
  by code_simp

text \<open>
  Claim C1, amended. When every chain fetch of an address fails the histogram is all zero,
  and on the all-zero histogram of 24 buckets the scorer returns \<open>utc_offset_hours = -12\<close>
  (the first offset evaluated: it replaces the initial \<open>-Infinity\<close> and no later offset is
  strictly better), \<open>iana_tz_example = Etc/GMT+12\<close>, \<open>ratio = 0\<close> and
  \<open>passes_rule = false\<close>.
\<close>

theorem all_zero_histogram:
  "fetchAddressHistogramSIM parse address (replicate n Failed) = Some (replicate 24 0)
   \<and> map_option (\<lambda>r. (utc_offset_hours r, iana_tz_example r, ratio r, passes_rule r))
       (analyzeHourlyCounts (replicate 24 0)) = Some (- 12, ''Etc/GMT+12'', Fin 0, False)"
proof
  show "fetchAddressHistogramSIM parse address (replicate n Failed) = Some (replicate 24 0)"
    by (rule fetch_all_failed)
  show "map_option (\<lambda>r. (utc_offset_hours r, iana_tz_example r, ratio r, passes_rule r))
       (analyzeHourlyCounts (replicate 24 0)) = Some (- 12, ''Etc/GMT+12'', Fin 0, False)"
    by code_simp
qed

text \<open>
  Claim C2 as stated (best offset 0 on the histogram with 10 at the hours 9 to 17) does not
  hold of the code.
\<close>

theorem busy_block_counterexample:
  "map_option utc_offset_hours (analyzeHourlyCounts busy_9_17) \<noteq> Some 0"
  by code_simp

text \<open>
  Claim C2, amended. On the histogram with 10 at the hours 9 to 17 and 0 elsewhere the
  scores of the offsets 0 and -1 are both 90, and the scorer returns the offset -1, the
  lower of the two, with \<open>ratio = 1\<close>.
\<close>

theorem busy_block:
  "daySum busy_9_17 0 = 90 \<and> daySum busy_9_17 (- 1) = 90
   \<and> map_option (\<lambda>r. (utc_offset_hours r, ratio r)) (analyzeHourlyCounts busy_9_17)
       = Some (- 1, Fin 1)"
  by code_simp

text \<open>
  Claim C3. For every histogram of 24 counts the scorer returns an offset in \<open>-12 .. 14\<close>;
  on these offsets the sum the code computes is the sum of \<open>counts[i]\<close> over the hours
  \<open>i\<close> with \<open>(i + offset) mod 24\<close> in \<open>[8, 18)\<close>; the returned offset has the largest such
  sum, and every lower offset has a strictly smaller one, so among tied offsets the lowest
  is returned. The scorer is a function of the histogram.
\<close>

theorem first_maximal_offset:
  assumes "length counts = 24"
  shows "\<exists>r. analyzeHourlyCounts counts = Some r
     \<and> utc_offset_hours r \<in> {- 12..14}
     \<and> (\<forall>x\<in>{- 12..14}.
           daySum counts x = daytimeSum_spec counts x
           \<and> daytimeSum_spec counts x \<le> daytimeSum_spec counts (utc_offset_hours r)
           \<and> (x < utc_offset_hours r \<longrightarrow>
                daytimeSum_spec counts x < daytimeSum_spec counts (utc_offset_hours r)))"
proof -
  obtain b where bf: "bestFit counts = (b, Fin (of_int (daySum counts b)))"
    and range: "b \<in> {- 12..14}"
    and maxi: "\<forall>x\<in>{- 12..14}. daySum counts x \<le> daySum counts b"
    and first: "\<forall>x\<in>{- 12..14}. x < b \<longrightarrow> daySum counts x < daySum counts b"
    using bestFit_first_max by blast
  obtain r where r: "analyzeHourlyCounts counts = Some r" and off: "utc_offset_hours r = b"
    using analyze_fields [OF _ bf] assms by auto
  have eq: "daySum counts x = daytimeSum_spec counts x" if "x \<in> {- 12..14}" for x
    using that by (intro daySum_spec) simp
  have "\<forall>x\<in>{- 12..14}.
           daySum counts x = daytimeSum_spec counts x
           \<and> daytimeSum_spec counts x \<le> daytimeSum_spec counts b
           \<and> (x < b \<longrightarrow> daytimeSum_spec counts x < daytimeSum_spec counts b)"
    using eq range maxi first by metis
  then show ?thesis using r off range by blast
qed

text \<open>Claim C3 on the histogram of claim C2.\<close>

theorem first_maximal_offset_witness:
  "length busy_9_17 = 24
   \<and> utc_offset_hours (the (analyzeHourlyCounts busy_9_17)) \<in> {- 12..14}
   \<and> daySum busy_9_17 (- 1) = daytimeSum_spec busy_9_17 (- 1)
   \<and> daytimeSum_spec busy_9_17 0 \<le> daytimeSum_spec busy_9_17 (utc_offset_hours (the (analyzeHourlyCounts busy_9_17)))"
proof -
  have len: "length busy_9_17 = 24" by (simp add: busy_9_17_def)
  obtain r where r: "analyzeHourlyCounts busy_9_17 = Some r"
    and range: "utc_offset_hours r \<in> {- 12..14}"
    and all: "\<forall>x\<in>{- 12..14}.
           daySum busy_9_17 x = daytimeSum_spec busy_9_17 x
           \<and> daytimeSum_spec busy_9_17 x \<le> daytimeSum_spec busy_9_17 (utc_offset_hours r)
           \<and> (x < utc_offset_hours r \<longrightarrow>
                daytimeSum_spec busy_9_17 x < daytimeSum_spec busy_9_17 (utc_offset_hours r))"
    using first_maximal_offset [OF len] by blast
  have m1: "(- 1::int) \<in> {- 12..14}" and z: "(0::int) \<in> {- 12..14}" by simp_all
  show ?thesis using len r range all [rule_format, OF m1] all [rule_format, OF z] by simp
qed


lemma sorted_copy_heap_result:
  assumes "r < length h"
  shows "sorted_copy_heap h r = Some (length h, h @ [sort (h ! r)])"
  using assms
  by (simp add: sorted_copy_heap_def spread_def sort_in_place_def nth_append)

text \<open>
  Claim C4. For every histogram of 24 counts the median the scorer returns is element 12
  of the ascending sort of the counts. The sorted array is a new array of the heap: every
  array that was there before, the histogram included, is unchanged.
\<close>

theorem median_is_sorted_12:
  assumes "r < length h" and "length (h ! r) = 24"
  shows "\<exists>p h' a. sorted_copy_heap h r = Some (p, h')
     \<and> h' ! p = sorted_copy (h ! r)
     \<and> take (length h) h' = h
     \<and> h' ! r = h ! r
     \<and> analyzeHourlyCounts (h ! r) = Some a
     \<and> median a = sort (h ! r) ! 12"
proof -
  obtain b where bf: "bestFit (h ! r) = (b, Fin (of_int (daySum (h ! r) b)))"
    using bestFit_first_max by blast
  have len24: "24 \<le> length (h ! r)" using assms(2) by simp
  obtain a where a: "analyzeHourlyCounts (h ! r) = Some a"
    and med: "median a = sort (h ! r) ! (length (h ! r) div 2)"
    using analyze_fields [OF len24 bf] by blast
  have "median a = sort (h ! r) ! 12" using med assms(2) by simp
  moreover have "(h @ [sort (h ! r)]) ! length h = sorted_copy (h ! r)"
    by (simp add: sorted_copy_def)
  moreover have "(h @ [sort (h ! r)]) ! r = h ! r"
    using assms(1) by (simp add: nth_append)
  ultimately show ?thesis
    using sorted_copy_heap_result [OF assms(1)] a by simp
qed

text \<open>
  Claim C4 on a histogram with twelve buckets at 0 and twelve at 10: the median is 10, the
  element at index 12, where the elements at 11 and 12 would average to 5.
\<close>

theorem median_is_sorted_12_witness:
  "(0::nat) < length [halves] \<and> length ([halves] ! 0) = 24
   \<and> map_option (\<lambda>(p, h'). h' ! 0) (sorted_copy_heap [halves] 0) = Some halves
   \<and> median (the (analyzeHourlyCounts halves)) = 10
   \<and> sort halves ! 12 = 10 \<and> sort halves ! 11 = 0"
proof -
  have r: "(0::nat) < length [halves]" by simp
  have len: "length ([halves] ! 0) = 24" by (simp add: halves_def)
  obtain p h' a where "sorted_copy_heap [halves] 0 = Some (p, h')"
    and "h' ! 0 = [halves] ! 0"
    and "analyzeHourlyCounts ([halves] ! 0) = Some a"
    and "median a = sort ([halves] ! 0) ! 12"
    using median_is_sorted_12 [OF r len] by blast
  moreover have "sort halves ! 12 = 10" "sort halves ! 11 = 0" by code_simp+
  ultimately show ?thesis using r len by simp
qed

text \<open>
  Claim C5. For every histogram of 24 counts: \<open>bestScore\<close> is the score of the returned
  offset; \<open>ratio\<close> is \<open>bestScore / total\<close> when the total is not zero and 0 when it is;
  \<open>bars_high_over_mult\<close> is the number of the 24 buckets with a count of at least three
  times the median; and \<open>passes_rule\<close> is \<open>ratio > 0.5\<close> and at least three such buckets.
\<close>

theorem confidence_metrics:
  assumes "length counts = 24"
  shows "\<exists>r. analyzeHourlyCounts counts = Some r
     \<and> snd (bestFit counts) = Fin (of_int (daySum counts (utc_offset_hours r)))
     \<and> ratio r = (if sum_list counts = 0 then Fin 0
                   else Fin (of_int (daySum counts (utc_offset_hours r)) / of_int (sum_list counts)))
     \<and> bars_high_over_mult r = card {i. i < 24 \<and> median r * 3 \<le> counts ! i}
     \<and> passes_rule r = (gt (ratio r) (Fin (1 / 2)) \<and> 3 \<le> bars_high_over_mult r)"
proof -
  have len24: "24 \<le> length counts" using assms by simp
  obtain b where bf: "bestFit counts = (b, Fin (of_int (daySum counts b)))"
    using bestFit_first_max by blast
  obtain r where r: "analyzeHourlyCounts counts = Some r"
    and off: "utc_offset_hours r = b"
    and rat: "ratio r = (if total_sum counts \<noteq> 0
                   then Fin (of_int (daySum counts b) / of_int (total_sum counts)) else Fin 0)"
    and bars: "bars_high_over_mult r = length (filter (\<lambda>c. median r * 3 \<le> c) counts)"
    and rule: "passes_rule r = (gt (ratio r) (Fin (1 / 2)) \<and> 3 \<le> bars_high_over_mult r)"
    using analyze_fields [OF len24 bf] by blast
  have "bars_high_over_mult r = card {i. i < 24 \<and> median r * 3 \<le> counts ! i}"
    using bars assms by (simp add: length_filter_conv_card)
  moreover have "snd (bestFit counts) = Fin (of_int (daySum counts (utc_offset_hours r)))"
    using bf off by simp
  moreover have "ratio r = (if sum_list counts = 0 then Fin 0
                   else Fin (of_int (daySum counts (utc_offset_hours r)) / of_int (sum_list counts)))"
    using rat off by (simp add: total_sum_sum_list)
  ultimately show ?thesis using r rule by blast
qed

text \<open>Claim C5 on the histogram of claim C2, which passes the rule.\<close>

theorem confidence_metrics_witness:
  "length busy_9_17 = 24
   \<and> ratio (the (analyzeHourlyCounts busy_9_17)) = Fin 1
   \<and> bars_high_over_mult (the (analyzeHourlyCounts busy_9_17)) = 24
   \<and> passes_rule (the (analyzeHourlyCounts busy_9_17))"
proof -
  have len: "length busy_9_17 = 24" by (simp add: busy_9_17_def)
  obtain r where r: "analyzeHourlyCounts busy_9_17 = Some r"
    and rule: "passes_rule r = (gt (ratio r) (Fin (1 / 2)) \<and> 3 \<le> bars_high_over_mult r)"
    using confidence_metrics [OF len] by blast
  have vals: "map_option (\<lambda>r. (ratio r, bars_high_over_mult r)) (analyzeHourlyCounts busy_9_17)
      = Some (Fin 1, 24)"
    by code_simp
  have "ratio r = Fin 1" "bars_high_over_mult r = 24" using vals r by simp_all
  then show ?thesis using len r rule by simp
qed

lemma sum_list_filter_le:
  "\<forall>x\<in>set xs. 0 \<le> f x \<Longrightarrow> 0 \<le> sum_list (map f (filter P xs))
     \<and> sum_list (map f (filter P xs)) \<le> sum_list (map f xs)"
  for f :: "nat \<Rightarrow> int"
  by (induction xs) auto

lemma daytimeSum_bounds:
  assumes len: "length counts = 24" and nonneg: "\<forall>c\<in>set counts. 0 \<le> c"
  shows "0 \<le> daytimeSum_spec counts x \<and> daytimeSum_spec counts x \<le> sum_list counts"
proof -
  have "\<forall>i\<in>set [0..<24]. 0 \<le> counts ! i"
    using len nonneg by simp
  then have "0 \<le> daytimeSum_spec counts x
      \<and> daytimeSum_spec counts x \<le> sum_list (map (\<lambda>i. counts ! i) [0..<24])"
    unfolding daytimeSum_spec_def by (rule sum_list_filter_le)
  moreover have "map (\<lambda>i. counts ! i) [0..<24] = counts"
    using map_nth [of counts] len by simp
  ultimately show ?thesis by simp
qed

text \<open>
  Claim C10. For every histogram of 24 counts that are not negative, the final
  \<open>bestScore\<close> is a number (not \<open>-Infinity\<close>) between 0 and the total, \<open>ratio\<close> lies in
  \<open>[0, 1]\<close>, and the returned offset lies in \<open>[-12, 14]\<close>.
\<close>

theorem score_ratio_offset_bounds:
  assumes "length counts = 24" and "\<forall>c\<in>set counts. 0 \<le> c"
  shows "\<exists>r bestScore q. analyzeHourlyCounts counts = Some r
     \<and> snd (bestFit counts) = Fin (of_int bestScore)
     \<and> 0 \<le> bestScore \<and> bestScore \<le> total_sum counts
     \<and> ratio r = Fin q \<and> 0 \<le> q \<and> q \<le> 1
     \<and> - 12 \<le> utc_offset_hours r \<and> utc_offset_hours r \<le> 14"
proof -
  have len24: "24 \<le> length counts" using assms by simp
  obtain b where bf: "bestFit counts = (b, Fin (of_int (daySum counts b)))"
    and range: "b \<in> {- 12..14}"
    using bestFit_first_max by blast
  obtain r where r: "analyzeHourlyCounts counts = Some r"
    and off: "utc_offset_hours r = b"
    and rat: "ratio r = (if total_sum counts \<noteq> 0
                   then Fin (of_int (daySum counts b) / of_int (total_sum counts)) else Fin 0)"
    using analyze_fields [OF len24 bf] by blast
  define s where "s = daySum counts b"
  define t where "t = total_sum counts"
  have "s = daytimeSum_spec counts b"
    unfolding s_def using range by (intro daySum_spec) simp
  then have s: "0 \<le> s" "s \<le> t"
    using daytimeSum_bounds [OF assms, of b] by (simp_all add: t_def total_sum_sum_list)
  define q :: rat where "q = (if t \<noteq> 0 then of_int s / of_int t else 0)"
  have q: "0 \<le> q" "q \<le> 1"
    using s by (auto simp: q_def divide_le_eq_1)
  have "ratio r = Fin q"
    using rat by (simp add: q_def s_def t_def)
  moreover have "snd (bestFit counts) = Fin (of_int s)"
    using bf by (simp add: s_def)
  ultimately show ?thesis
    using r s q off range unfolding t_def by auto
qed

text \<open>Claim C10 on the histogram of claim C2: score and total are both 90.\<close>

theorem score_ratio_offset_bounds_witness:
  "length busy_9_17 = 24 \<and> list_all (\<lambda>c. 0 \<le> c) busy_9_17
   \<and> snd (bestFit busy_9_17) = Fin 90 \<and> total_sum busy_9_17 = 90
   \<and> - 12 \<le> utc_offset_hours (the (analyzeHourlyCounts busy_9_17))
   \<and> utc_offset_hours (the (analyzeHourlyCounts busy_9_17)) \<le> 14"
proof -
  have len: "length busy_9_17 = 24" by (simp add: busy_9_17_def)
  have nonneg: "\<forall>c\<in>set busy_9_17. 0 \<le> c" by (simp add: busy_9_17_def)
  obtain r where "analyzeHourlyCounts busy_9_17 = Some r"
    and "- 12 \<le> utc_offset_hours r" and "utc_offset_hours r \<le> 14"
    using score_ratio_offset_bounds [OF len nonneg] by blast
  moreover have "snd (bestFit busy_9_17) = Fin 90" "total_sum busy_9_17 = 90"
    by code_simp+
  moreover have "list_all (\<lambda>c. 0 \<le> c) busy_9_17" by (simp add: busy_9_17_def)
  ultimately show ?thesis using len by simp
qed

section \<open>Properties of the cache key\<close>


text \<open>
  Claim C6 as stated does not hold of the code: the lists \<open>[0xabc, 0xabc]\<close> and
  \<open>[0xabc]\<close> denote the same set of addresses and have different keys.
\<close>

theorem cacheKey_set_counterexample:
  "set (map toLowerCase [''0xabc'', ''0xabc'']) = set (map toLowerCase [''0xabc''])
   \<and> cacheKey [''0xabc'', ''0xabc''] \<noteq> cacheKey [''0xabc'']"
  by code_simp

text \<open>
  Claim C6, amended. The cache key is insensitive to order and letter case: two address
  lists whose lower-cased forms are permutations of each other (the same addresses, each
  as often in one list as in the other) have the same key. Nothing is claimed of lists
  that differ in how often an address occurs.
\<close>

theorem cacheKey_order_case_insensitive:
  assumes "mset (map toLowerCase xs) = mset (map toLowerCase ys)"
  shows "cacheKey xs = cacheKey ys"
proof -
  have "sort (map toLowerCase xs) = sort (map toLowerCase ys)"
    using assms by (intro properties_for_sort) simp_all
  then show ?thesis by (simp add: cacheKey_def)
qed

lemma toLowerCase_0xABC: "toLowerCase ''0xABC'' = ''0xabc''" by code_simp
lemma toLowerCase_0xdef: "toLowerCase ''0xdef'' = ''0xdef''" by code_simp
lemma toLowerCase_0xabc: "toLowerCase ''0xabc'' = ''0xabc''" by code_simp

text \<open>Claim C6 on the two lists of the spec's example.\<close>

theorem cacheKey_order_case_insensitive_witness:
  "mset (map toLowerCase [''0xABC'', ''0xdef'']) = mset (map toLowerCase [''0xdef'', ''0xabc''])
   \<and> cacheKey [''0xABC'', ''0xdef''] = cacheKey [''0xdef'', ''0xabc'']
   \<and> cacheKey [''0xdef'', ''0xabc''] = ''0xabc,0xdef''"
proof -
  have m: "mset (map toLowerCase [''0xABC'', ''0xdef'']) = mset (map toLowerCase [''0xdef'', ''0xabc''])"
    by (simp add: toLowerCase_0xABC toLowerCase_0xdef toLowerCase_0xabc)
  have "cacheKey [''0xdef'', ''0xabc''] = ''0xabc,0xdef''" by code_simp
  then show ?thesis using m cacheKey_order_case_insensitive [OF m] by simp
qed

section \<open>Properties of the accumulator\<close>


lemma getUTCHours_less: "getUTCHours ts < 24"
  by (simp add: getUTCHours_def nat_less_iff)

lemma utcHour_less: "utcHour parse e < 24"
  by (simp add: utcHour_def getUTCHours_less split: option.splits)

lemma accumulateStep_discarded:
  "accumulateStep parse f (Some cs) e =
     (if discarded parse f e then Some cs else bump cs (utcHour parse e))"
  by (auto simp: accumulateStep_def tryBody_def discarded_def utcHour_def
           split: option.splits jsval.splits)

lemma bump_in_range:
  "h < length cs \<Longrightarrow> bump cs h = Some (cs[h := cs ! h + 1])"
  by (simp add: bump_def)

lemma counted_Cons:
  "counted parse f h (e # evs) =
     (if \<not> discarded parse f e \<and> utcHour parse e = h then 1 else 0) + counted parse f h evs"
  by (simp add: counted_def)

lemma accumulate_loop:
  "length cs = 24 \<Longrightarrow>
   \<exists>out. foldl (accumulateStep parse f) (Some cs) evs = Some out \<and> length out = 24
     \<and> (\<forall>h<24. out ! h = cs ! h + int (counted parse f h evs))"
proof (induction evs arbitrary: cs)
  case Nil
  then show ?case by (simp add: counted_def)
next
  case (Cons e evs)
  show ?case
  proof (cases "discarded parse f e")
    case True
    then show ?thesis
      using Cons.IH [OF Cons.prems] by (simp add: accumulateStep_discarded counted_Cons)
  next
    case False
    define k where "k = utcHour parse e"
    have k: "k < length cs" using Cons.prems utcHour_less [of parse e] by (simp add: k_def)
    define cs' where "cs' = cs[k := cs ! k + 1]"
    have len: "length cs' = 24" using Cons.prems by (simp add: cs'_def)
    have stp: "accumulateStep parse f (Some cs) e = Some cs'"
      using False k by (simp add: accumulateStep_discarded bump_in_range k_def cs'_def)
    obtain out where out: "foldl (accumulateStep parse f) (Some cs') evs = Some out"
      and lo: "length out = 24"
      and vals: "\<forall>h<24. out ! h = cs' ! h + int (counted parse f h evs)"
      using Cons.IH [OF len] by blast
    have "out ! h = cs ! h + int (counted parse f h (e # evs))" if "h < 24" for h
      using that vals False k Cons.prems
      by (cases "h = k") (simp_all add: counted_Cons cs'_def k_def)
    then show ?thesis using out lo stp by simp
  qed
qed

lemma counted_mset:
  "mset evs' = mset evs \<Longrightarrow> counted parse f h evs' = counted parse f h evs"
proof -
  assume eq: "mset evs' = mset evs"
  have "length (filter P xs) = size (filter_mset P (mset xs))" for P and xs :: "'a event option list"
    by (metis mset_filter size_mset)
  then show ?thesis using eq by (simp add: counted_def)
qed

text \<open>
  Claim C8 as stated does not hold of the code: with the filter \<open>0xabc\<close> given, an event
  that carries no address does not match the filter, and yet it is counted at its hour.
\<close>

theorem accumulate_no_address_counterexample:
  "accumulateHoursFromActivity parse_example (replicate 24 0) (Some [Some event_no_address])
       (Some ''0xabc'')
     = Some [0, 0, 0, 0, 0, 1, 0, 0, 0, 0, 0, 0, 0, 0, 0, 0, 0, 0, 0, 0, 0, 0, 0, 0]
   \<and> accumulateHoursFromActivity parse_example (replicate 24 0) (Some [Some event_no_address])
       (Some ''0xabc'')
     \<noteq> Some (replicate 24 0)"
  by code_simp

text \<open>
  Claim C8, amended. On a histogram of 24 buckets the accumulator returns a histogram of
  24 buckets in which bucket \<open>h\<close> has grown by the number of events at UTC hour \<open>h\<close>
  that are not discarded; an event is discarded when it is \<open>null\<close>, when its \<open>block_time\<close>
  does not parse, or when a non-empty filter is given and the event carries a non-empty
  address whose lower case differs from the filter (or an address that is not a string).
  Every other event, one without an address included, adds 1 to the bucket of its hour
  and to no other. The result is the same for every ordering of the events.
\<close>

theorem accumulate_histogram:
  assumes "length counts24 = 24"
  shows "\<exists>out. accumulateHoursFromActivity parse counts24 (Some activity) f = Some out
     \<and> length out = 24
     \<and> (\<forall>h<24. out ! h = counts24 ! h + int (counted parse f h activity))
     \<and> (\<forall>activity'. mset activity' = mset activity \<longrightarrow>
           accumulateHoursFromActivity parse counts24 (Some activity') f = Some out)
     \<and> accumulateHoursFromActivity parse counts24 (Some [e]) f =
         Some (if discarded parse f e then counts24
               else counts24[utcHour parse e := counts24 ! utcHour parse e + 1])"
proof -
  obtain out where out: "accumulateHoursFromActivity parse counts24 (Some activity) f = Some out"
    and lo: "length out = 24"
    and vals: "\<forall>h<24. out ! h = counts24 ! h + int (counted parse f h activity)"
    using accumulate_loop [OF assms, of parse f activity]
    by (auto simp: accumulateHoursFromActivity_def)
  have perm: "accumulateHoursFromActivity parse counts24 (Some activity') f = Some out"
    if eq: "mset activity' = mset activity" for activity'
  proof -
    obtain out' where out': "accumulateHoursFromActivity parse counts24 (Some activity') f = Some out'"
      and lo': "length out' = 24"
      and vals': "\<forall>h<24. out' ! h = counts24 ! h + int (counted parse f h activity')"
      using accumulate_loop [OF assms, of parse f activity']
      by (auto simp: accumulateHoursFromActivity_def)
    have "out' = out"
    proof (rule nth_equalityI)
      show "length out' = length out" using lo lo' by simp
    next
      fix i assume "i < length out'"
      then have "i < 24" using lo' by simp
      then show "out' ! i = out ! i"
        using vals vals' counted_mset [OF eq, of parse f i] by simp
    qed
    then show ?thesis using out' by simp
  qed
  have single: "accumulateHoursFromActivity parse counts24 (Some [e]) f =
         Some (if discarded parse f e then counts24
               else counts24[utcHour parse e := counts24 ! utcHour parse e + 1])"
    using assms utcHour_less [of parse e]
    by (simp add: accumulateHoursFromActivity_def accumulateStep_discarded bump_in_range)
  show ?thesis using out lo vals perm single by blast
qed


text \<open>
  Claim C8 on three events under the filter \<open>0xabc\<close>: one with the address \<open>0xABC\<close>
  (counted at hour 5), one with another address and a \<open>null\<close> (both discarded), in two
  orders.
\<close>

theorem accumulate_histogram_witness:
  "length (replicate 24 (0::int)) = 24
   \<and> accumulateHoursFromActivity parse_example (replicate 24 0)
        (Some [None, Some event_other_address, Some event_same_address]) (Some ''0xabc'')
     = accumulateHoursFromActivity parse_example (replicate 24 0)
        (Some [Some event_same_address, Some event_other_address, None]) (Some ''0xabc'')
   \<and> map_option (\<lambda>out. out ! 5) (accumulateHoursFromActivity parse_example (replicate 24 0)
        (Some [Some event_same_address, Some event_other_address, None]) (Some ''0xabc'')) = Some 1
   \<and> discarded parse_example (Some ''0xabc'') (Some event_other_address)
   \<and> \<not> discarded parse_example (Some ''0xabc'') (Some event_same_address)
   \<and> utcHour parse_example (Some event_same_address) = 5"
proof -
  define activity where
    "activity = [Some event_same_address, Some event_other_address, None]"
  have len: "length (replicate 24 (0::int)) = 24" by simp
  obtain out where
    out: "accumulateHoursFromActivity parse_example (replicate 24 0) (Some activity) (Some ''0xabc'')
            = Some out"
    and vals: "\<forall>h<24. out ! h = replicate 24 0 ! h + int (counted parse_example (Some ''0xabc'') h activity)"
    and perm: "\<forall>activity'. mset activity' = mset activity \<longrightarrow>
           accumulateHoursFromActivity parse_example (replicate 24 0) (Some activity') (Some ''0xabc'')
             = Some out"
    using accumulate_histogram [OF len, of parse_example activity "Some ''0xabc''"] by blast
  have "mset [None, Some event_other_address, Some event_same_address] = mset activity"
    by (simp add: activity_def)
  then have swap: "accumulateHoursFromActivity parse_example (replicate 24 0)
        (Some [None, Some event_other_address, Some event_same_address]) (Some ''0xabc'') = Some out"
    using perm by blast
  have d1: "discarded parse_example (Some ''0xabc'') (Some event_other_address)" by code_simp
  have d2: "\<not> discarded parse_example (Some ''0xabc'') (Some event_same_address)" by code_simp
  have d3: "discarded parse_example (Some ''0xabc'') None" by code_simp
  have u: "utcHour parse_example (Some event_same_address) = 5" by code_simp
  have "counted parse_example (Some ''0xabc'') 5 activity = 1"
    by (simp add: counted_def activity_def d1 d2 d3 u)
  then have "out ! 5 = 1" using vals by simp
  then show ?thesis using len out swap d1 d2 u unfolding activity_def by simp
qed

section \<open>Properties of the worker pool and the handler\<close>


lemma sum_list_map_update:
  "i < length ws \<Longrightarrow>
   sum_list (map g (ws[i := w])) + g (ws ! i) = sum_list (map g ws) + g w"
  for g :: "'a \<Rightarrow> 'b::comm_monoid_add"
proof (induction ws arbitrary: i)
  case Nil
  then show ?case by simp
next
  case (Cons x xs)
  show ?case
  proof (cases i)
    case 0
    then show ?thesis by (simp add: ac_simps)
  next
    case (Suc j)
    then have "sum_list (map g (xs[j := w])) + g (xs ! j) = sum_list (map g xs) + g w"
      using Cons by simp
    then show ?thesis using Suc by (simp add: add.assoc)
  qed
qed

lemma inflight_update:
  "i < length ws \<Longrightarrow> inflight (ws[i := w]) + held (ws ! i) = inflight ws + held w"
  unfolding inflight_def by (rule sum_list_map_update)

lemma weight_update:
  "i < length ws \<Longrightarrow>
   sum_list (map weight (ws[i := w])) + weight (ws ! i) = sum_list (map weight ws) + weight w"
  by (rule sum_list_map_update)

lemma Finished_after_update:
  "Finished \<in> set (ws[i := w]) \<Longrightarrow> w \<noteq> Finished \<Longrightarrow> Finished \<in> set ws"
  using set_update_subset_insert [of ws i w] by auto

lemma step_measure: "step parse s s' \<Longrightarrow> pool_measure s' < pool_measure s"
proof (induction rule: step.induct)
  case (pop i s)
  have "sum_list (map weight ((workers s)[i := Awaiting (last (queue s))])) + 1
      = sum_list (map weight (workers s)) + 2"
    using weight_update [OF pop(1), of "Awaiting (last (queue s))"] pop(2) by simp
  moreover have "length (butlast (queue s)) + 1 = length (queue s)" using pop(3) by simp
  ultimately show ?case by (simp add: pool_measure_def del: length_butlast)
next
  case (leave i s)
  have "sum_list (map weight ((workers s)[i := Finished])) + 1 = sum_list (map weight (workers s))"
    using weight_update [OF leave(1), of Finished] leave(2) by simp
  then show ?case by (simp add: pool_measure_def)
next
  case (resume i s address replies counts r)
  have "sum_list (map weight ((workers s)[i := AtLoopHead])) + 2
      = sum_list (map weight (workers s)) + 1"
    using weight_update [OF resume(1), of AtLoopHead] resume(2) by simp
  then show ?case by (simp add: pool_measure_def)
qed

lemma step_inv: "step parse s s' \<Longrightarrow> pool_inv addresses n s \<Longrightarrow> pool_inv addresses n s'"
proof (induction rule: step.induct)
  case (pop i s)
  have fl: "inflight ((workers s)[i := Awaiting (last (queue s))])
      = inflight (workers s) + {#last (queue s)#}"
    using inflight_update [OF pop(1), of "Awaiting (last (queue s))"] pop(2) by simp
  have "mset (butlast (queue s) @ [last (queue s)]) = mset (queue s)"
    using pop(3) by simp
  then have q: "mset (queue s) = mset (butlast (queue s)) + {#last (queue s)#}"
    by simp
  have nofin: "Finished \<notin> set ((workers s)[i := Awaiting (last (queue s))])"
    using Finished_after_update [of "workers s" i "Awaiting (last (queue s))"] pop(3,4)
    by (auto simp: pool_inv_def)
  have "mset (butlast (queue s)) + inflight ((workers s)[i := Awaiting (last (queue s))])
        + mset (map fst (results s)) = mset addresses"
    using pop(4) by (simp add: pool_inv_def fl q)
  moreover have "mset (calls s @ [last (queue s)])
      = inflight ((workers s)[i := Awaiting (last (queue s))]) + mset (map fst (results s))"
    using pop(4) by (simp add: pool_inv_def fl)
  moreover have "length ((workers s)[i := Awaiting (last (queue s))]) = n"
    using pop(4) by (simp add: pool_inv_def)
  ultimately show ?case
    using nofin by (simp add: pool_inv_def)
next
  case (leave i s)
  have "inflight ((workers s)[i := Finished]) = inflight (workers s)"
    using inflight_update [OF leave(1), of Finished] leave(2) by simp
  then show ?case using leave(3,4) by (simp add: pool_inv_def)
next
  case (resume i s address replies counts r)
  have fl: "inflight ((workers s)[i := AtLoopHead]) + {#address#} = inflight (workers s)"
    using inflight_update [OF resume(1), of AtLoopHead] resume(2) by simp
  have fin: "Finished \<in> set ((workers s)[i := AtLoopHead]) \<Longrightarrow> Finished \<in> set (workers s)"
    using Finished_after_update [of "workers s" i AtLoopHead] by simp
  have "mset (queue s) + inflight ((workers s)[i := AtLoopHead])
        + mset (map fst (results s @ [(address, r)])) = mset addresses"
    using resume(5) by (simp add: pool_inv_def fl [symmetric])
  moreover have "mset (calls s)
      = inflight ((workers s)[i := AtLoopHead]) + mset (map fst (results s @ [(address, r)]))"
    using resume(5) by (simp add: pool_inv_def fl [symmetric])
  moreover have "length ((workers s)[i := AtLoopHead]) = n"
    using resume(5) by (simp add: pool_inv_def)
  moreover have "Finished \<in> set ((workers s)[i := AtLoopHead]) \<longrightarrow> queue s = []"
    using resume(5) fin by (simp add: pool_inv_def)
  ultimately show ?case
    by (simp add: pool_inv_def)
qed

lemma steps_inv:
  "(step parse)\<^sup>*\<^sup>* s s' \<Longrightarrow> pool_inv addresses n s \<Longrightarrow> pool_inv addresses n s'"
  by (induction rule: rtranclp_induct) (auto intro: step_inv)

lemma init_inv:
  "pool_inv addresses (workerCount WORKERS (length addresses)) (initPool WORKERS addresses)"
proof -
  have "sum_list (map held (replicate k AtLoopHead)) = {#}" for k
    by (induction k) simp_all
  then show ?thesis by (simp add: pool_inv_def initPool_def inflight_def)
qed

lemma workerCount_pos: "1 \<le> WORKERS \<Longrightarrow> 0 < workerCount WORKERS n"
  by (simp add: workerCount_def)

lemma finished_inflight: "list_all (\<lambda>w. w = Finished) ws \<Longrightarrow> inflight ws = {#}"
  by (induction ws) (simp_all add: inflight_def)

lemma finished_results:
  assumes inv: "pool_inv addresses n s" and n: "0 < n" and fin: "finished s"
  shows "mset (map fst (results s)) = mset addresses \<and> mset (calls s) = mset addresses"
proof -
  have ws: "workers s \<noteq> []" using inv n by (auto simp: pool_inv_def)
  then have "Finished \<in> set (workers s)"
    using fin by (cases "workers s") (simp_all add: finished_def)
  then have "queue s = []" using inv by (simp add: pool_inv_def)
  moreover have "inflight (workers s) = {#}"
    using fin by (simp add: finished_def finished_inflight)
  ultimately show ?thesis using inv by (simp add: pool_inv_def)
qed


lemma analyze_zero: "analyzeHourlyCounts (replicate 24 0) = Some zero_result"
  by code_simp

lemma step_progress:
  assumes "\<not> finished s"
  shows "\<exists>s'. step parse s s'"
proof -
  obtain i where i: "i < length (workers s)" and w: "workers s ! i \<noteq> Finished"
    using assms by (auto simp: finished_def list_all_length)
  show ?thesis
  proof (cases "workers s ! i")
    case AtLoopHead
    then show ?thesis
      using i by (cases "queue s = []") (blast intro: step.leave step.pop)+
  next
    case (Awaiting address)
    have "fetchAddressHistogramSIM parse address [] = Some (replicate 24 0)"
      by (simp add: fetchAddressHistogramSIM_def)
    then show ?thesis
      using step.resume [OF i Awaiting _ analyze_zero] by blast
  next
    case Finished
    then show ?thesis using w by simp
  qed
qed

lemma complete_run_exists: "\<exists>s'. (step parse)\<^sup>*\<^sup>* s s' \<and> finished s'"
proof (induction "pool_measure s" arbitrary: s rule: less_induct)
  case less
  show ?case
  proof (cases "finished s")
    case True
    then show ?thesis by blast
  next
    case False
    then obtain s1 where s1: "step parse s s1"
      using step_progress by blast
    then obtain s' where "(step parse)\<^sup>*\<^sup>* s1 s'" and "finished s'"
      using less [OF step_measure] by blast
    then show ?thesis
      using s1 by (blast intro: converse_rtranclp_into_rtranclp)
  qed
qed

lemma handler_miss:
  "addresses \<noteq> [] \<Longrightarrow> cache (cacheKey addresses) = None \<Longrightarrow>
   handler cache (Addresses addresses) s =
     (Json200 (results s), cache(cacheKey addresses \<mapsto> results s),
      CacheGet (cacheKey addresses) # map ProviderFetch (calls s)
        @ [CacheSet (cacheKey addresses) (results s)])"
  by (simp add: handler_def)

text \<open>
  Claim C7, amended. On a cache miss for a non-empty request, with at least one worker
  configured, the pool has a run that finishes, and in every finished run the response
  holds exactly one entry for each entry of the request: an address has as many results
  as it has occurrences in the request, so the addresses of a request without duplicates
  have one result each.
\<close>

theorem one_result_per_request_entry:
  assumes "1 \<le> WORKERS" and "addresses \<noteq> []" and "cache (cacheKey addresses) = None"
  shows "(\<exists>s. (step parse)\<^sup>*\<^sup>* (initPool WORKERS addresses) s \<and> finished s)
     \<and> (\<forall>s. (step parse)\<^sup>*\<^sup>* (initPool WORKERS addresses) s \<and> finished s \<longrightarrow>
          (\<exists>rs. fst (handler cache (Addresses addresses) s) = Json200 rs
             \<and> mset (map fst rs) = mset addresses
             \<and> length rs = length addresses
             \<and> (\<forall>a. count_list (map fst rs) a = count_list addresses a)
             \<and> (distinct addresses \<longrightarrow> distinct (map fst rs))))"
proof (intro conjI allI impI)
  show "\<exists>s. (step parse)\<^sup>*\<^sup>* (initPool WORKERS addresses) s \<and> finished s"
    by (rule complete_run_exists)
next
  fix s
  assume run: "(step parse)\<^sup>*\<^sup>* (initPool WORKERS addresses) s \<and> finished s"
  have inv: "pool_inv addresses (workerCount WORKERS (length addresses)) s"
    using steps_inv [OF _ init_inv] run by blast
  have ms: "mset (map fst (results s)) = mset addresses"
    using finished_results [OF inv workerCount_pos [OF assms(1)]] run by blast
  have "length (map fst (results s)) = length addresses"
    using ms by (metis size_mset)
  moreover have "count_list (map fst (results s)) a = count_list addresses a" for a
    using ms by (metis count_mset)
  moreover have "distinct addresses \<longrightarrow> distinct (map fst (results s))"
    using ms by (metis mset_eq_imp_distinct_iff)
  ultimately show "\<exists>rs. fst (handler cache (Addresses addresses) s) = Json200 rs
             \<and> mset (map fst rs) = mset addresses
             \<and> length rs = length addresses
             \<and> (\<forall>a. count_list (map fst rs) a = count_list addresses a)
             \<and> (distinct addresses \<longrightarrow> distinct (map fst rs))"
    using ms handler_miss [of addresses cache s] assms(2,3) by simp
qed


lemma step_pop_rec:
  "i < length ws \<Longrightarrow> ws ! i = AtLoopHead \<Longrightarrow> q \<noteq> [] \<Longrightarrow>
   step parse \<lparr> queue = q, results = rs, workers = ws, calls = cs \<rparr>
     \<lparr> queue = butlast q, results = rs, workers = ws[i := Awaiting (last q)],
       calls = cs @ [last q] \<rparr>"
  using step.pop [of i "\<lparr> queue = q, results = rs, workers = ws, calls = cs \<rparr>" parse] by simp

lemma step_leave_rec:
  "i < length ws \<Longrightarrow> ws ! i = AtLoopHead \<Longrightarrow>
   step parse \<lparr> queue = [], results = rs, workers = ws, calls = cs \<rparr>
     \<lparr> queue = [], results = rs, workers = ws[i := Finished], calls = cs \<rparr>"
  using step.leave [of i "\<lparr> queue = [], results = rs, workers = ws, calls = cs \<rparr>" parse] by simp

lemma step_resume_zero_rec:
  "i < length ws \<Longrightarrow> ws ! i = Awaiting address \<Longrightarrow>
   step parse \<lparr> queue = q, results = rs, workers = ws, calls = cs \<rparr>
     \<lparr> queue = q, results = rs @ [(address, zero_result)], workers = ws[i := AtLoopHead],
       calls = cs \<rparr>"
proof -
  have "fetchAddressHistogramSIM parse address [] = Some (replicate 24 0)"
    by (simp add: fetchAddressHistogramSIM_def)
  then show "i < length ws \<Longrightarrow> ws ! i = Awaiting address \<Longrightarrow> ?thesis"
    using step.resume [of i "\<lparr> queue = q, results = rs, workers = ws, calls = cs \<rparr>"
        address parse "[]" "replicate 24 0" zero_result] analyze_zero
    by simp
qed

lemma initPool_duplicate:
  "initPool 5 [''0xabc'', ''0xabc''] =
     \<lparr> queue = [''0xabc'', ''0xabc''], results = [], workers = [AtLoopHead], calls = [] \<rparr>"
  by (simp add: initPool_def workerCount_def)

lemma run_duplicate_reachable:
  "(step parse)\<^sup>*\<^sup>* (initPool 5 [''0xabc'', ''0xabc'']) run_duplicate"
proof -
  let ?a = "''0xabc''"
  let ?r = "(?a, zero_result)"
  have "step parse \<lparr> queue = [?a, ?a], results = [], workers = [AtLoopHead], calls = [] \<rparr>
          \<lparr> queue = [?a], results = [], workers = [Awaiting ?a], calls = [?a] \<rparr>"
    using step_pop_rec [of 0 "[AtLoopHead]" "[?a, ?a]" parse "[]" "[]"] by simp
  moreover have "step parse \<lparr> queue = [?a], results = [], workers = [Awaiting ?a], calls = [?a] \<rparr>
          \<lparr> queue = [?a], results = [?r], workers = [AtLoopHead], calls = [?a] \<rparr>"
    using step_resume_zero_rec [of 0 "[Awaiting ?a]" ?a parse "[?a]" "[]" "[?a]"] by simp
  moreover have "step parse \<lparr> queue = [?a], results = [?r], workers = [AtLoopHead], calls = [?a] \<rparr>
          \<lparr> queue = [], results = [?r], workers = [Awaiting ?a], calls = [?a, ?a] \<rparr>"
    using step_pop_rec [of 0 "[AtLoopHead]" "[?a]" parse "[?r]" "[?a]"] by simp
  moreover have "step parse \<lparr> queue = [], results = [?r], workers = [Awaiting ?a], calls = [?a, ?a] \<rparr>
          \<lparr> queue = [], results = [?r, ?r], workers = [AtLoopHead], calls = [?a, ?a] \<rparr>"
    using step_resume_zero_rec [of 0 "[Awaiting ?a]" ?a parse "[]" "[?r]" "[?a, ?a]"] by simp
  moreover have "step parse \<lparr> queue = [], results = [?r, ?r], workers = [AtLoopHead], calls = [?a, ?a] \<rparr>
          \<lparr> queue = [], results = [?r, ?r], workers = [Finished], calls = [?a, ?a] \<rparr>"
    using step_leave_rec [of 0 "[AtLoopHead]" parse "[?r, ?r]" "[?a, ?a]"] by simp
  ultimately show ?thesis
    unfolding initPool_duplicate run_duplicate_def
    by (meson rtranclp.rtrancl_refl rtranclp.rtrancl_into_rtrancl)
qed

text \<open>
  Claim C7 as stated does not hold of the code: the request that names \<open>0xabc\<close> twice has
  one distinct address, and a finished run of the pool answers with two entries for it.
\<close>

theorem one_result_per_distinct_address_counterexample:
  "(step parse_example)\<^sup>*\<^sup>* (initPool 5 [''0xabc'', ''0xabc'']) run_duplicate
   \<and> finished run_duplicate
   \<and> fst (handler Map.empty (Addresses [''0xabc'', ''0xabc'']) run_duplicate)
       = Json200 [(''0xabc'', zero_result), (''0xabc'', zero_result)]
   \<and> card (set [''0xabc'', ''0xabc'']) = 1"
proof -
  have "finished run_duplicate" by (simp add: finished_def run_duplicate_def)
  moreover have "fst (handler Map.empty (Addresses [''0xabc'', ''0xabc'']) run_duplicate)
       = Json200 [(''0xabc'', zero_result), (''0xabc'', zero_result)]"
    by (simp add: handler_def run_duplicate_def)
  ultimately show ?thesis using run_duplicate_reachable [of parse_example] by simp
qed

text \<open>Claim C7 on the request that names one address twice, with five workers configured.\<close>

theorem one_result_per_request_entry_witness:
  "(1::int) \<le> 5 \<and> [''0xabc'', ''0xabc''] \<noteq> ([]::string list)
   \<and> (Map.empty :: cache) (cacheKey [''0xabc'', ''0xabc'']) = None
   \<and> (step parse_example)\<^sup>*\<^sup>* (initPool 5 [''0xabc'', ''0xabc'']) run_duplicate
   \<and> finished run_duplicate
   \<and> mset (map fst (results run_duplicate)) = mset [''0xabc'', ''0xabc'']
   \<and> count_list (map fst (results run_duplicate)) ''0xabc'' = 2"
proof -
  have w: "(1::int) \<le> 5" by simp
  have ne: "[''0xabc'', ''0xabc''] \<noteq> ([]::string list)" by simp
  have miss: "(Map.empty :: cache) (cacheKey [''0xabc'', ''0xabc'']) = None" by simp
  have fin: "finished run_duplicate" by (simp add: finished_def run_duplicate_def)
  have run: "(step parse_example)\<^sup>*\<^sup>* (initPool 5 [''0xabc'', ''0xabc'']) run_duplicate"
    by (rule run_duplicate_reachable)
  have all: "\<forall>s. (step parse_example)\<^sup>*\<^sup>* (initPool 5 [''0xabc'', ''0xabc'']) s \<and> finished s \<longrightarrow>
          (\<exists>rs. fst (handler Map.empty (Addresses [''0xabc'', ''0xabc'']) s) = Json200 rs
             \<and> mset (map fst rs) = mset [''0xabc'', ''0xabc'']
             \<and> length rs = length [''0xabc'', ''0xabc'']
             \<and> (\<forall>a. count_list (map fst rs) a = count_list [''0xabc'', ''0xabc''] a)
             \<and> (distinct [''0xabc'', ''0xabc''] \<longrightarrow> distinct (map fst rs)))"
    using one_result_per_request_entry [OF w ne miss, of parse_example] by blast
  obtain rs where rs: "fst (handler Map.empty (Addresses [''0xabc'', ''0xabc'']) run_duplicate) = Json200 rs"
    and ms: "mset (map fst rs) = mset [''0xabc'', ''0xabc'']"
    and cnt: "\<forall>a. count_list (map fst rs) a = count_list [''0xabc'', ''0xabc''] a"
    using all run fin by blast
  have "rs = results run_duplicate"
    using rs by (simp add: handler_def)
  then have "mset (map fst (results run_duplicate)) = mset [''0xabc'', ''0xabc'']"
    and "count_list (map fst (results run_duplicate)) ''0xabc'' = 2"
    using ms cnt by simp_all
  then show ?thesis using w ne miss fin run by blast
qed

text \<open>Every other request starts with a read of the cache.\<close>

lemma handler_reads_cache:
  "addresses \<noteq> [] \<Longrightarrow>
   hd (snd (snd (handler cache (Addresses addresses) s))) = CacheGet (cacheKey addresses)"
  by (simp add: handler_def split: option.splits)

text \<open>
  Claim C9. When the body has no array of addresses, or an empty one, the handler answers
  400 with the cache as it was and without any effect: no read of the cache, no write to
  it and no fetch, and the pool is not looked at.
\<close>

theorem reject_before_fetch:
  assumes "b = NoList \<or> b = Addresses []"
  shows "handler cache b s = (Json400 ''addresses array required'', cache, [])"
  using assms by (auto simp: handler_def)

text \<open>Claim C9 on a body without a list and on a body with the empty list.\<close>

theorem reject_before_fetch_witness:
  "handler Map.empty NoList (initPool 5 []) = (Json400 ''addresses array required'', Map.empty, [])
   \<and> handler Map.empty (Addresses []) (initPool 5 [])
       = (Json400 ''addresses array required'', Map.empty, [])"
proof -
  have a: "NoList = NoList \<or> NoList = Addresses []" by simp
  have b: "Addresses [] = NoList \<or> Addresses [] = Addresses []" by simp
  show ?thesis
    using reject_before_fetch [OF a, of Map.empty "initPool 5 []"]
      reject_before_fetch [OF b, of Map.empty "initPool 5 []"] by simp
qed

end
